theory Spec2Isabelle
  imports Complex_Main "HOL-Library.Product_Lexorder"
begin

section \<open>Graph search: breadth-first search, Dijkstra and path reconstruction\<close>

text \<open>
  A shallow embedding of \<^verbatim>\<open>1-bfs-graph.py\<close> and \<^verbatim>\<open>3-dijkstra.py\<close>.
  Locations are an arbitrary type \<open>'l\<close> (the source's type variable \<^verbatim>\<open>Location\<close>).
  The \<^verbatim>\<open>Graph\<close> protocol is a record with the method \<open>neighbors\<close>, and
  \<^verbatim>\<open>WeightedGraph(Graph)\<close> extends it by \<open>cost\<close>. Dictionaries are maps, Python
  exceptions are values of the type \<open>error\<close>, and a loop that may run forever is a
  partial function into \<open>option\<close>, where \<open>None\<close> means that the call does not return.
  Costs and priorities are Python numbers (the integers 1 and 5 in \<^verbatim>\<open>diagram4\<close>, \<^verbatim>\<open>float\<close>
  by annotation); they are modelled as real numbers, with exact arithmetic.
\<close>

subsection \<open>Data model\<close>

datatype error = KeyError | IndexError

record 'l graph =
  neighbors :: "'l \<Rightarrow> 'l list"

record 'l weighted_graph = "'l graph" +
  cost :: "'l \<Rightarrow> 'l \<Rightarrow> real"

subsection \<open>Graphs, paths and reachability\<close>

text \<open>
  A graph is what the \<^verbatim>\<open>Graph\<close> protocol says: \<open>neighbors g x\<close> is the finite sequence of
  the locations one edge away from \<open>x\<close>, in the order the graph enumerates them.
\<close>

definition edge :: "('l, 'm) graph_scheme \<Rightarrow> 'l \<Rightarrow> 'l \<Rightarrow> bool" where
  "edge g x y = (y \<in> set (neighbors g x))"

definition reachable :: "('l, 'm) graph_scheme \<Rightarrow> 'l \<Rightarrow> 'l \<Rightarrow> bool" where
  "reachable g a b = (edge g)\<^sup>*\<^sup>* a b"

text \<open>
  The example graph of \<^verbatim>\<open>1-bfs-graph.py\<close>: six nodes and eight edges. Its class
  \<^verbatim>\<open>SimpleGraph\<close> looks the location up in the dictionary \<^verbatim>\<open>edges\<close>, which raises
  \<^verbatim>\<open>KeyError\<close> for a location that is not a key. Every edge of the example leads to a key,
  so a search that starts at one of the six nodes never asks for another location; the
  model gives those no neighbours.
\<close>

definition example_graph :: "string graph" where
  "example_graph = \<lparr>neighbors = (\<lambda>id.
     if id = ''A'' then [''B'']
     else if id = ''B'' then [''C'']
     else if id = ''C'' then [''B'', ''D'', ''F'']
     else if id = ''D'' then [''C'', ''E'']
     else if id = ''E'' then [''F'']
     else [])\<rparr>"

subsection \<open>The FIFO queue\<close>

text \<open>
  The class \<^verbatim>\<open>Queue\<close> wraps a \<^verbatim>\<open>collections.deque\<close>: \<^verbatim>\<open>put\<close> appends on the right,
  \<^verbatim>\<open>get\<close> pops on the left and raises \<^verbatim>\<open>IndexError\<close> on an empty deque.
\<close>

definition queue_empty :: "'l list \<Rightarrow> bool" where
  "queue_empty elements = (elements = [])"

definition queue_put :: "'l list \<Rightarrow> 'l \<Rightarrow> 'l list" where
  "queue_put elements x = elements @ [x]"

definition queue_get :: "'l list \<Rightarrow> error + ('l \<times> 'l list)" where
  "queue_get elements = (case elements of [] \<Rightarrow> Inl IndexError | x # rest \<Rightarrow> Inr (x, rest))"

subsection \<open>Breadth-first search\<close>

text \<open>
  The state of \<^verbatim>\<open>breadth_first_search\<close>: the frontier, the dictionary \<^verbatim>\<open>reached\<close>, and
  the locations printed so far by \<^verbatim>\<open>print("  Visiting %s" % current)\<close>, one per line.
  The source returns nothing; the model returns the final state, so that the table
  \<^verbatim>\<open>reached\<close> it has computed and its output can be observed.
\<close>

record 'l bfs_state =
  bfs_frontier :: "'l list"
  reached :: "'l \<rightharpoonup> bool"
  printed :: "'l list"

text \<open>The body of the \<^verbatim>\<open>for\<close> loop, for one neighbour \<open>next\<close>.\<close>

definition bfs_visit :: "'l bfs_state \<Rightarrow> 'l \<Rightarrow> 'l bfs_state" where
  "bfs_visit s next =
     (if reached s next = None
      then s\<lparr>bfs_frontier := queue_put (bfs_frontier s) next,
             reached := (reached s)(next \<mapsto> True)\<rparr>
      else s)"

text \<open>The statements of the \<^verbatim>\<open>while\<close> body before its \<^verbatim>\<open>for\<close> loop.\<close>

definition bfs_dequeue :: "'l bfs_state \<Rightarrow> 'l \<Rightarrow> 'l list \<Rightarrow> 'l bfs_state" where
  "bfs_dequeue s current rest = s\<lparr>bfs_frontier := rest, printed := printed s @ [current]\<rparr>"

partial_function (option) bfs_loop ::
  "('l, 'm) graph_scheme \<Rightarrow> 'l bfs_state \<Rightarrow> (error + 'l bfs_state) option" where
  "bfs_loop g s =
     (if queue_empty (bfs_frontier s) then Some (Inr s)
      else (case queue_get (bfs_frontier s) of
              Inl e \<Rightarrow> Some (Inl e)
            | Inr (current, rest) \<Rightarrow>
                bfs_loop g (foldl bfs_visit (bfs_dequeue s current rest) (neighbors g current))))"

declare bfs_loop.simps [code]

definition bfs_init :: "'l \<Rightarrow> 'l bfs_state" where
  "bfs_init start = \<lparr>bfs_frontier = queue_put [] start, reached = [start \<mapsto> True], printed = []\<rparr>"

definition breadth_first_search ::
  "('l, 'm) graph_scheme \<Rightarrow> 'l \<Rightarrow> (error + 'l bfs_state) option" where
  "breadth_first_search g start = bfs_loop g (bfs_init start)"

text \<open>
  The same loops, one statement at a time. A configuration is the state and the place in
  the code: at the test of the \<^verbatim>\<open>while\<close> loop (\<open>Head\<close>), inside the \<^verbatim>\<open>for\<close> loop of
  \<open>current\<close> with the neighbours still to come (\<open>Inner\<close>), after the loop (\<open>Done\<close>), or
  stopped by an exception (\<open>Failed\<close>).
\<close>

datatype 'l pc = Head | Inner 'l "'l list" | Done | Failed error

fun bfs_step :: "('l, 'm) graph_scheme \<Rightarrow> 'l bfs_state \<times> 'l pc \<Rightarrow> 'l bfs_state \<times> 'l pc" where
  "bfs_step g (s, Head) =
     (if queue_empty (bfs_frontier s) then (s, Done)
      else (case queue_get (bfs_frontier s) of
              Inl e \<Rightarrow> (s, Failed e)
            | Inr (current, rest) \<Rightarrow> (bfs_dequeue s current rest, Inner current (neighbors g current))))"
| "bfs_step g (s, Inner current []) = (s, Head)"
| "bfs_step g (s, Inner current (next # rest)) = (bfs_visit s next, Inner current rest)"
| "bfs_step g (s, Done) = (s, Done)"
| "bfs_step g (s, Failed e) = (s, Failed e)"

definition bfs_run :: "('l, 'm) graph_scheme \<Rightarrow> 'l \<Rightarrow> nat \<Rightarrow> 'l bfs_state \<times> 'l pc" where
  "bfs_run g start n = (bfs_step g ^^ n) (bfs_init start, Head)"

text \<open>
  The locations put on the frontier by the first \<open>n\<close> steps of the run, in the order of
  the calls of \<^verbatim>\<open>frontier.put\<close>: \<open>start\<close> before the loop, and then \<open>next\<close> whenever the
  test \<^verbatim>\<open>next not in reached\<close> succeeds.
\<close>

fun bfs_puts :: "('l, 'm) graph_scheme \<Rightarrow> 'l \<Rightarrow> nat \<Rightarrow> 'l list" where
  "bfs_puts g start 0 = [start]"
| "bfs_puts g start (Suc n) = bfs_puts g start n @
     (case bfs_run g start n of
        (s, Inner current (next # rest)) \<Rightarrow> if reached s next = None then [next] else []
      | _ \<Rightarrow> [])"

subsection \<open>Path reconstruction\<close>

text \<open>
  \<^verbatim>\<open>
  while current != start:
      path.append(current)
      current = came_from[current]
  \<close>
  The table maps a location to its predecessor or to Python's \<^verbatim>\<open>None\<close>, so the
  variable \<^verbatim>\<open>current\<close> ranges over \<open>'l option\<close>. When it is \<^verbatim>\<open>None\<close> the test
  \<^verbatim>\<open>current != start\<close> succeeds and the lookup \<^verbatim>\<open>came_from[None]\<close> raises
  \<^verbatim>\<open>KeyError\<close>, as does the lookup of any location that is not a key.
\<close>

partial_function (option) walk_back ::
  "('l \<rightharpoonup> 'l option) \<Rightarrow> 'l \<Rightarrow> 'l option \<Rightarrow> 'l list \<Rightarrow> (error + 'l list) option" where
  "walk_back came_from start current path =
     (case current of
        None \<Rightarrow> Some (Inl KeyError)
      | Some c \<Rightarrow>
          if c \<noteq> start then
            (case came_from c of
               None \<Rightarrow> Some (Inl KeyError)
             | Some prev \<Rightarrow> walk_back came_from start prev (path @ [c]))
          else Some (Inr path))"

declare walk_back.simps [code]

definition reconstruct_path ::
  "('l \<rightharpoonup> 'l option) \<Rightarrow> 'l \<Rightarrow> 'l \<Rightarrow> (error + 'l list) option" where
  "reconstruct_path came_from start goal =
     (if came_from goal = None then Some (Inr [])
      else (case walk_back came_from start (Some goal) [] of
              None \<Rightarrow> None
            | Some (Inl e) \<Rightarrow> Some (Inl e)
            | Some (Inr path) \<Rightarrow> Some (Inr (rev (path @ [start])))))"

text \<open>
  Following backpointers from \<open>x\<close> reaches \<open>start\<close> in finitely many lookups.
\<close>

inductive reaches_start :: "('l \<rightharpoonup> 'l option) \<Rightarrow> 'l \<Rightarrow> 'l \<Rightarrow> bool"
  for came_from :: "'l \<rightharpoonup> 'l option" and start :: 'l where
  reaches_here: "reaches_start came_from start start"
| reaches_back: "came_from x = Some (Some p) \<Longrightarrow> reaches_start came_from start p
         \<Longrightarrow> reaches_start came_from start x"

text \<open>The backpointers from \<open>x\<close> to \<open>start\<close>, listed from \<open>start\<close> to \<open>x\<close>.\<close>

inductive chain :: "('l \<rightharpoonup> 'l option) \<Rightarrow> 'l \<Rightarrow> 'l \<Rightarrow> 'l list \<Rightarrow> bool"
  for came_from :: "'l \<rightharpoonup> 'l option" and start :: 'l where
  chain_start: "chain came_from start start [start]"
| chain_back: "x \<noteq> start \<Longrightarrow> came_from x = Some (Some p) \<Longrightarrow> chain came_from start p ps
         \<Longrightarrow> chain came_from start x (ps @ [x])"

subsection \<open>The priority queue\<close>

text \<open>
  The class \<^verbatim>\<open>PriorityQueue\<close> keeps the tuples \<^verbatim>\<open>(priority, item)\<close> in a \<^verbatim>\<open>heapq\<close> heap:
  \<^verbatim>\<open>heappush\<close> adds a tuple, and \<^verbatim>\<open>heappop\<close> takes out and returns the least tuple in
  Python's order on tuples, that is by priority and, among equal priorities, by item; on
  an empty heap it raises \<^verbatim>\<open>IndexError\<close>. The model keeps the tuples in a list, in no
  particular order, and takes the least one out. Locations that are put on
  this queue are of a linearly ordered type, as the comparison of tuples needs.
\<close>

definition pq_empty :: "(real \<times> 'l) list \<Rightarrow> bool" where
  "pq_empty elements = (elements = [])"

definition pq_put :: "(real \<times> 'l) list \<Rightarrow> 'l \<Rightarrow> real \<Rightarrow> (real \<times> 'l) list" where
  "pq_put elements item priority = (priority, item) # elements"

definition pq_get :: "(real \<times> 'l::linorder) list \<Rightarrow> error + ('l \<times> (real \<times> 'l) list)" where
  "pq_get elements =
     (if elements = [] then Inl IndexError
      else let least = Min (set elements) in Inr (snd least, remove1 least elements))"

subsection \<open>Dijkstra's search\<close>

record 'l dijkstra_state =
  frontier :: "(real \<times> 'l) list"
  came_from :: "'l \<rightharpoonup> 'l option"
  cost_so_far :: "'l \<rightharpoonup> real"

text \<open>
  The body of the \<^verbatim>\<open>for\<close> loop, for one neighbour \<open>next\<close>. The lookup
  \<^verbatim>\<open>cost_so_far[current]\<close> raises \<^verbatim>\<open>KeyError\<close> when \<open>current\<close> is not a key.
\<close>

definition relax ::
  "('l, 'm) weighted_graph_scheme \<Rightarrow> 'l \<Rightarrow> 'l dijkstra_state \<Rightarrow> 'l \<Rightarrow> error + 'l dijkstra_state" where
  "relax g current s next =
     (case cost_so_far s current of
        None \<Rightarrow> Inl KeyError
      | Some c \<Rightarrow>
          let new_cost = c + cost g current next in
          if (case cost_so_far s next of None \<Rightarrow> True | Some old \<Rightarrow> new_cost < old)
          then Inr (s\<lparr>cost_so_far := (cost_so_far s)(next \<mapsto> new_cost),
                      frontier := pq_put (frontier s) next new_cost,
                      came_from := (came_from s)(next \<mapsto> Some current)\<rparr>)
          else Inr s)"

fun relax_all ::
  "('l, 'm) weighted_graph_scheme \<Rightarrow> 'l \<Rightarrow> 'l dijkstra_state \<Rightarrow> 'l list \<Rightarrow> error + 'l dijkstra_state" where
  "relax_all g current s [] = Inr s"
| "relax_all g current s (next # rest) =
     (case relax g current s next of
        Inl e \<Rightarrow> Inl e
      | Inr s' \<Rightarrow> relax_all g current s' rest)"

partial_function (option) dijkstra_loop ::
  "('l::linorder, 'm) weighted_graph_scheme \<Rightarrow> 'l \<Rightarrow> 'l dijkstra_state
   \<Rightarrow> (error + 'l dijkstra_state) option" where
  "dijkstra_loop g goal s =
     (if pq_empty (frontier s) then Some (Inr s)
      else (case pq_get (frontier s) of
              Inl e \<Rightarrow> Some (Inl e)
            | Inr (current, rest) \<Rightarrow>
                if current = goal then Some (Inr (s\<lparr>frontier := rest\<rparr>))
                else (case relax_all g current (s\<lparr>frontier := rest\<rparr>) (neighbors g current) of
                        Inl e \<Rightarrow> Some (Inl e)
                      | Inr s' \<Rightarrow> dijkstra_loop g goal s')))"

declare dijkstra_loop.simps [code]

definition dijkstra_init :: "'l \<Rightarrow> 'l dijkstra_state" where
  "dijkstra_init start =
     \<lparr>frontier = pq_put [] start 0, came_from = [start \<mapsto> None], cost_so_far = [start \<mapsto> 0]\<rparr>"

definition dijkstra_search ::
  "('l::linorder, 'm) weighted_graph_scheme \<Rightarrow> 'l \<Rightarrow> 'l
   \<Rightarrow> (error + ('l \<rightharpoonup> 'l option) \<times> ('l \<rightharpoonup> real)) option" where
  "dijkstra_search g start goal =
     (case dijkstra_loop g goal (dijkstra_init start) of
        None \<Rightarrow> None
      | Some (Inl e) \<Rightarrow> Some (Inl e)
      | Some (Inr s) \<Rightarrow> Some (Inr (came_from s, cost_so_far s)))"

text \<open>The same loops, one statement at a time, on configurations as for breadth-first search.\<close>

fun dijkstra_step ::
  "('l::linorder, 'm) weighted_graph_scheme \<Rightarrow> 'l \<Rightarrow> 'l dijkstra_state \<times> 'l pc
   \<Rightarrow> 'l dijkstra_state \<times> 'l pc" where
  "dijkstra_step g goal (s, Head) =
     (if pq_empty (frontier s) then (s, Done)
      else (case pq_get (frontier s) of
              Inl e \<Rightarrow> (s, Failed e)
            | Inr (current, rest) \<Rightarrow>
                if current = goal then (s\<lparr>frontier := rest\<rparr>, Done)
                else (s\<lparr>frontier := rest\<rparr>, Inner current (neighbors g current))))"
| "dijkstra_step g goal (s, Inner current []) = (s, Head)"
| "dijkstra_step g goal (s, Inner current (next # rest)) =
     (case relax g current s next of
        Inl e \<Rightarrow> (s, Failed e)
      | Inr s' \<Rightarrow> (s', Inner current rest))"
| "dijkstra_step g goal (s, Done) = (s, Done)"
| "dijkstra_step g goal (s, Failed e) = (s, Failed e)"

definition dijkstra_run ::
  "('l::linorder, 'm) weighted_graph_scheme \<Rightarrow> 'l \<Rightarrow> 'l \<Rightarrow> nat \<Rightarrow> 'l dijkstra_state \<times> 'l pc" where
  "dijkstra_run g start goal n = (dijkstra_step g goal ^^ n) (dijkstra_init start, Head)"

subsection \<open>Invariants of breadth-first search\<close>

text \<open>
  The neighbours of \<open>x\<close> that the \<^verbatim>\<open>for\<close> loop has still to look at, and the facts that hold
  of every configuration of a run: no location is printed or queued twice, the keys of
  \<^verbatim>\<open>reached\<close> are the printed and the queued locations, all of them can be reached from
  \<open>start\<close>, and every neighbour of a printed location that is not pending is a key.
\<close>

definition pending :: "'l pc \<Rightarrow> 'l \<Rightarrow> 'l set" where
  "pending p x = (case p of Inner current rest \<Rightarrow> if x = current then set rest else {} | _ \<Rightarrow> {})"

definition bfs_inv :: "('l, 'm) graph_scheme \<Rightarrow> 'l \<Rightarrow> 'l bfs_state \<times> 'l pc \<Rightarrow> bool" where
  "bfs_inv g start c = (case c of (s, p) \<Rightarrow>
     distinct (printed s @ bfs_frontier s) \<and>
     set (printed s) \<union> set (bfs_frontier s) = dom (reached s) \<and>
     start \<in> dom (reached s) \<and>
     (\<forall>x \<in> dom (reached s). reachable g start x) \<and>
     (\<forall>x \<in> set (printed s). set (neighbors g x) - pending p x \<subseteq> dom (reached s)) \<and>
     (case p of Head \<Rightarrow> True
      | Inner current rest \<Rightarrow> current \<in> set (printed s) \<and> set rest \<subseteq> set (neighbors g current)
      | Done \<Rightarrow> bfs_frontier s = [] | Failed e \<Rightarrow> False))"

subsection \<open>Invariants of Dijkstra's search\<close>

text \<open>A weighted graph of four locations and five edges, to run the search on.\<close>

definition small_graph :: "nat weighted_graph" where
  "small_graph = \<lparr>neighbors = (\<lambda>x. if x = 0 then [1, 2] else if x = 1 then [3]
                                  else if x = 2 then [1, 3] else []),
     cost = (\<lambda>x y. if (x, y) = (0, 1) then 4 else if (x, y) = (0, 2) then 1
                   else if (x, y) = (2, 1) then 2 else if (x, y) = (1, 3) then 1
                   else if (x, y) = (2, 3) then 5 else 1)\<rparr>"

text \<open>
  What holds of every configuration of a run, whatever the costs: the two tables have the
  same keys, every item of the frontier is a key, and so is the location whose
  neighbours the \<^verbatim>\<open>for\<close> loop is looking at; no statement has raised.
\<close>

definition keys_inv :: "'l dijkstra_state \<times> 'l pc \<Rightarrow> bool" where
  "keys_inv c = (case c of (s, p) \<Rightarrow>
     dom (came_from s) = dom (cost_so_far s) \<and>
     (\<forall>e \<in> set (frontier s). snd e \<in> dom (cost_so_far s)) \<and>
     (case p of Inner current rest \<Rightarrow> current \<in> dom (cost_so_far s) | Failed e \<Rightarrow> False | _ \<Rightarrow> True))"

subsection \<open>Paths and their costs\<close>





definition nonneg_costs :: "('l, 'm) weighted_graph_scheme \<Rightarrow> bool" where
  "nonneg_costs g = (\<forall>x. \<forall>y \<in> set (neighbors g x). 0 \<le> cost g x y)"

subsection \<open>Invariants of Dijkstra's search on non-negative costs\<close>

definition settled :: "'l dijkstra_state \<Rightarrow> 'l \<Rightarrow> real \<Rightarrow> bool" where
  "settled s x v = (cost_so_far s x = Some v \<and> (v, x) \<notin> set (frontier s))"

definition dijkstra_pending :: "'l \<Rightarrow> 'l pc \<Rightarrow> 'l \<Rightarrow> 'l set" where
  "dijkstra_pending goal p x =
     (case p of
        Inner current rest \<Rightarrow> if x = current then set rest else {}
      | Done \<Rightarrow> if x = goal then UNIV else {}
      | _ \<Rightarrow> {})"

definition queue_ok :: "'l dijkstra_state \<Rightarrow> bool" where
  "queue_ok s = (distinct (frontier s) \<and>
     (\<forall>pr x. (pr, x) \<in> set (frontier s) \<longrightarrow> (\<exists>v. cost_so_far s x = Some v \<and> v \<le> pr)))"

definition settled_least :: "'l dijkstra_state \<Rightarrow> bool" where
  "settled_least s = (\<forall>x v pr y. settled s x v \<longrightarrow> (pr, y) \<in> set (frontier s) \<longrightarrow> v \<le> pr)"

definition relaxed :: "('l, 'm) weighted_graph_scheme \<Rightarrow> 'l \<Rightarrow> 'l dijkstra_state \<Rightarrow> 'l pc \<Rightarrow> bool" where
  "relaxed g goal s p = (\<forall>x v y. settled s x v \<longrightarrow> y \<in> set (neighbors g x) \<longrightarrow>
     (\<exists>w. cost_so_far s y = Some w \<and> w \<le> v + cost g x y) \<or>
     (y \<in> dijkstra_pending goal p x \<and> (\<forall>z u. settled s z u \<longrightarrow> u \<le> v)))"

definition tree_ok :: "('l, 'm) weighted_graph_scheme \<Rightarrow> 'l \<Rightarrow> 'l dijkstra_state \<Rightarrow> bool" where
  "tree_ok g start s =
     (cost_so_far s start = Some 0 \<and> came_from s start = Some None \<and>
      (\<forall>x v. cost_so_far s x = Some v \<longrightarrow> 0 \<le> v) \<and>
      (\<forall>x v. cost_so_far s x = Some v \<longrightarrow> x \<noteq> start \<longrightarrow>
         (\<exists>q u. came_from s x = Some (Some q) \<and> settled s q u \<and> x \<in> set (neighbors g q)
            \<and> v = u + cost g q x)) \<and>
      (\<forall>x. came_from s x \<noteq> None \<longrightarrow> reaches_start (came_from s) start x) \<and>
      (\<forall>x v. cost_so_far s x = Some v \<longrightarrow> reachable g start x))"

definition place_ok :: "('l, 'm) weighted_graph_scheme \<Rightarrow> 'l \<Rightarrow> 'l dijkstra_state \<Rightarrow> 'l pc \<Rightarrow> bool" where
  "place_ok g goal s p =
     (case p of
        Head \<Rightarrow> True
      | Inner current rest \<Rightarrow>
          (\<exists>c. settled s current c) \<and> set rest \<subseteq> set (neighbors g current)
      | Done \<Rightarrow> frontier s = [] \<or> (\<exists>c. settled s goal c)
      | Failed e \<Rightarrow> False)"

definition dijkstra_inv ::
  "('l, 'm) weighted_graph_scheme \<Rightarrow> 'l \<Rightarrow> 'l \<Rightarrow> 'l dijkstra_state \<times> 'l pc \<Rightarrow> bool" where
  "dijkstra_inv g start goal c = (case c of (s, p) \<Rightarrow>
     dom (came_from s) = dom (cost_so_far s) \<and> queue_ok s \<and> settled_least s \<and>
     relaxed g goal s p \<and> tree_ok g start s \<and> place_ok g goal s p)"

text \<open>The backpointer relation of a table: \<open>x\<close> points back to \<open>q\<close>.\<close>

definition backpointer :: "('l \<rightharpoonup> 'l option) \<Rightarrow> 'l \<Rightarrow> 'l \<Rightarrow> bool" where
  "backpointer table x q = (table x = Some (Some q))"




definition negative_loop :: "nat weighted_graph" where
  "negative_loop = \<lparr>neighbors = (\<lambda>n. if n = 0 then [0] else []), cost = (\<lambda>x y. - 1)\<rparr>"

section \<open>Properties of path reconstruction\<close>

lemma walk_back_chain:
  assumes "chain cf start x ps"
  shows "walk_back cf start (Some x) acc = Some (Inr (acc @ rev (tl ps)))"
  using assms
proof (induction arbitrary: acc rule: chain.induct)
  case chain_start
  show ?case by (subst walk_back.simps) simp
next
  case (chain_back x p ps)
  have "ps \<noteq> []" using chain_back.hyps(3) by (cases rule: chain.cases) auto
  then have tl: "tl (ps @ [x]) = tl ps @ [x]" by (cases ps) auto
  show ?case
    by (subst walk_back.simps) (simp add: chain_back.hyps chain_back.IH tl)
qed

lemma walk_back_diverges:
  assumes closed: "\<And>c. c \<in> C \<Longrightarrow> c \<noteq> start \<and> (\<exists>p \<in> C. cf c = Some (Some p))"
    and "x \<in> C"
  shows "walk_back cf start (Some x) acc = None"
proof -
  have nr: "\<not> (t = cf \<and> s = start \<and> cur \<in> Some ` C)"
    if "walk_back t s cur acc = Some r" for t s cur acc r
  proof (rule walk_back.raw_induct [where P = "\<lambda>t s cur acc r. \<not> (t = cf \<and> s = start \<and> cur \<in> Some ` C)", OF _ that])
    fix f t s cur and acc :: "'a list" and r
    assume IH: "\<And>t s cur acc r. f t s cur acc = Some r
        \<Longrightarrow> \<not> (t = cf \<and> s = start \<and> cur \<in> Some ` C)"
      and *: "(case cur of None \<Rightarrow> Some (Inl KeyError)
      | Some c \<Rightarrow>
          if c \<noteq> s
          then case t c of None \<Rightarrow> Some (Inl KeyError)
               | Some prev \<Rightarrow> f t s prev (acc @ [c])
          else Some (Inr acc)) = Some r"
    show "\<not> (t = cf \<and> s = start \<and> cur \<in> Some ` C)"
    proof
      assume a: "t = cf \<and> s = start \<and> cur \<in> Some ` C"
      then obtain c where c: "cur = Some c" "c \<in> C" by auto
      from closed [OF c(2)] obtain p where p: "c \<noteq> start" "p \<in> C" "cf c = Some (Some p)"
        by auto
      from * a c p have "f cf start (Some p) (acc @ [c]) = Some r" by simp
      from IH [OF this] p(2) show False by simp
    qed
  qed
  show ?thesis
  proof (cases "walk_back cf start (Some x) acc")
    case (Some r)
    from nr [OF Some] assms(2) show ?thesis by simp
  qed simp
qed

lemma chain_nonempty: "chain cf start x ps \<Longrightarrow> ps \<noteq> [] \<and> hd ps = start \<and> last ps = x"
  by (induction rule: chain.induct) (auto simp: hd_append)

lemma reaches_start_chain:
  "reaches_start cf start x \<Longrightarrow> \<exists>ps. chain cf start x ps"
proof (induction rule: reaches_start.induct)
  case reaches_here
  show ?case by (blast intro: chain.intros)
next
  case (reaches_back x p)
  then obtain ps where ps: "chain cf start p ps" by blast
  show ?case
  proof (cases "x = start")
    case True
    then show ?thesis by (blast intro: chain.intros)
  next
    case False
    with reaches_back.hyps(1) ps show ?thesis by (blast intro: chain.intros)
  qed
qed

lemma reconstruct_path_chain:
  assumes "chain cf start goal ps" and "cf goal \<noteq> None"
  shows "reconstruct_path cf start goal = Some (Inr ps)"
proof -
  from chain_nonempty [OF assms(1)] have ne: "ps \<noteq> []" and hd: "hd ps = start" by auto
  have eq: "start # tl ps = ps" using ne hd by (cases ps) auto
  from assms(2) obtain v where "cf goal = Some v" by auto
  then show ?thesis
    by (simp add: reconstruct_path_def walk_back_chain [OF assms(1)] eq)
qed

text \<open>
  C8, as the code has it. The test \<^verbatim>\<open>goal not in came_from\<close> comes before the walk, so a
  table without the key \<open>goal\<close> gives the empty path also when \<open>start = goal\<close>.
\<close>

theorem reconstruct_path_start_absent_counterexample:
  "reconstruct_path (Map.empty :: nat \<rightharpoonup> nat option) 0 0 = Some (Inr [])
   \<and> reconstruct_path (Map.empty :: nat \<rightharpoonup> nat option) 0 0 \<noteq> Some (Inr [0])"
  by (simp add: reconstruct_path_def)

text \<open>
  C8, amended: for every table that has the key \<open>goal\<close>, and \<open>start = goal\<close>, the result of
  \<open>reconstruct_path\<close> is the one-element path \<open>[start]\<close>.
\<close>

theorem reconstruct_path_start_is_goal:
  "cf goal \<noteq> None \<Longrightarrow> start = goal
   \<Longrightarrow> reconstruct_path cf start goal = Some (Inr [start])"
  by (simp add: reconstruct_path_def) (subst walk_back.simps, simp)

theorem reconstruct_path_start_is_goal_witness:
  "reconstruct_path [3 \<mapsto> None] (3::nat) 3 = Some (Inr [3])"
  using reconstruct_path_start_is_goal [of "[3 \<mapsto> None]" "3::nat" 3] by simp

text \<open>
  C6: when every chain of lookups from a key of the table reaches \<open>start\<close>, the call
  \<open>reconstruct_path cf start goal\<close> returns, and it returns a path, not an error.
\<close>

theorem reconstruct_path_terminates:
  assumes "\<forall>k \<in> dom cf. reaches_start cf start k"
  shows "\<exists>path. reconstruct_path cf start goal = Some (Inr path)"
proof (cases "cf goal = None")
  case True
  then show ?thesis by (simp add: reconstruct_path_def)
next
  case False
  with assms have "reaches_start cf start goal" by (auto simp: dom_def)
  from reaches_start_chain [OF this] obtain ps where "chain cf start goal ps" ..
  from reconstruct_path_chain [OF this False] show ?thesis by blast
qed

theorem reconstruct_path_terminates_witness:
  "\<exists>path. reconstruct_path [1 \<mapsto> Some 0, 0 \<mapsto> None] (0::nat) 1 = Some (Inr path)"
proof -
  have h: "\<forall>k \<in> dom [1 \<mapsto> Some 0, 0 \<mapsto> None].
             reaches_start [1 \<mapsto> Some 0, 0 \<mapsto> None] (0::nat) k"
    by (auto intro: reaches_start.intros)
  from reconstruct_path_terminates [OF h, of 1] show ?thesis .
qed

text \<open>
  The walk has no cycle detection: on a table whose backpointers from \<open>goal\<close> run into a
  cycle that avoids \<open>start\<close>, the call does not return.
\<close>

lemma reconstruct_path_cycle_diverges:
  "reconstruct_path [1 \<mapsto> Some (1::nat)] 0 1 = None"
proof -
  have "walk_back [1 \<mapsto> Some (1::nat)] 0 (Some 1) [] = None"
    by (rule walk_back_diverges [where C = "{1}"]) auto
  then show ?thesis by (simp add: reconstruct_path_def)
qed

section \<open>Properties of breadth-first search\<close>

lemma bfs_inv_init: "bfs_inv g start (bfs_init start, Head)"
  by (simp add: bfs_inv_def bfs_init_def queue_put_def reachable_def)

lemma reachable_edge: "reachable g a x \<Longrightarrow> y \<in> set (neighbors g x) \<Longrightarrow> reachable g a y"
  unfolding reachable_def by (rule rtranclp.rtrancl_into_rtrancl) (simp_all add: edge_def)

lemma bfs_inv_step:
  assumes "bfs_inv g start c"
  shows "bfs_inv g start (bfs_step g c)"
proof (cases c)
  case (Pair s p)
  show ?thesis
  proof (cases p)
    case Head
    show ?thesis
    proof (cases "bfs_frontier s")
      case Nil
      with assms Pair Head show ?thesis
        by (simp add: bfs_inv_def queue_empty_def pending_def)
    next
      case (Cons x xs)
      with assms Pair Head show ?thesis
        by (auto simp add: bfs_inv_def queue_empty_def queue_get_def bfs_dequeue_def pending_def)
    qed
  next
    case (Inner current ns)
    show ?thesis
    proof (cases ns)
      case Nil
      with assms Pair Inner show ?thesis
        by (auto simp add: bfs_inv_def pending_def split: if_splits)
    next
      case (Cons n rest)
      from assms Pair Inner have "reachable g start current"
        by (auto simp add: bfs_inv_def)
      with assms Pair Inner Cons have "reachable g start n"
        by (auto simp add: bfs_inv_def intro: reachable_edge)
      with assms Pair Inner Cons show ?thesis
        by (auto simp add: bfs_inv_def pending_def bfs_visit_def queue_put_def split: if_splits)
          blast+
    qed
  next
    case Done
    with assms Pair show ?thesis by simp
  next
    case (Failed e)
    with assms Pair show ?thesis by (simp add: bfs_inv_def)
  qed
qed


lemma bfs_inv_run: "bfs_inv g start (bfs_run g start n)"
  by (induction n) (simp_all add: bfs_run_def bfs_inv_init bfs_inv_step)

lemma bfs_steps_inner:
  "(bfs_step g ^^ Suc (length ns)) (s, Inner current ns) = (foldl bfs_visit s ns, Head)"
  by (induction ns arbitrary: s) (simp_all add: funpow_swap1)

lemma bfs_steps_iter:
  assumes "bfs_frontier s = current # rest"
  shows "(bfs_step g ^^ Suc (Suc (length (neighbors g current)))) (s, Head)
         = (foldl bfs_visit (bfs_dequeue s current rest) (neighbors g current), Head)"
proof -
  have "bfs_step g (s, Head) = (bfs_dequeue s current rest, Inner current (neighbors g current))"
    using assms by (simp add: queue_empty_def queue_get_def)
  then show ?thesis
    using bfs_steps_inner [where g = g and ns = "neighbors g current"
        and s = "bfs_dequeue s current rest" and current = current]
    by (simp only: funpow_Suc_right o_apply)
qed



lemma bfs_inv_steps: "bfs_inv g start c \<Longrightarrow> bfs_inv g start ((bfs_step g ^^ k) c)"
  by (induction k) (simp_all add: bfs_inv_step)



lemma bfs_loop_terminates:
  assumes fin: "finite {l. reachable g start l}"
  shows "bfs_inv g start (s, Head) \<Longrightarrow> \<exists>t. bfs_loop g s = Some (Inr t)"
proof (induction "card ({l. reachable g start l} - set (printed s))" arbitrary: s rule: less_induct)
  case less
  show ?case
  proof (cases "bfs_frontier s")
    case Nil
    then show ?thesis by (subst bfs_loop.simps) (simp add: queue_empty_def)
  next
    case (Cons current rest)
    let ?s' = "foldl bfs_visit (bfs_dequeue s current rest) (neighbors g current)"
    from bfs_inv_steps [OF less.prems, of "Suc (Suc (length (neighbors g current)))"]
    have inv': "bfs_inv g start (?s', Head)"
      by (simp only: bfs_steps_iter [OF Cons])
    have pr: "printed ?s' = printed s @ [current]"
    proof -
      have "printed (foldl bfs_visit t ns) = printed t" for t :: "'a bfs_state" and ns
        by (induction ns arbitrary: t) (simp_all add: bfs_visit_def)
      then show ?thesis by (simp add: bfs_dequeue_def)
    qed
    from less.prems Cons have "current \<notin> set (printed s)" "reachable g start current"
      by (auto simp add: bfs_inv_def)
    then have "{l. reachable g start l} - set (printed ?s')
        \<subset> {l. reachable g start l} - set (printed s)"
      by (auto simp add: pr)
    with fin have "card ({l. reachable g start l} - set (printed ?s'))
        < card ({l. reachable g start l} - set (printed s))"
      by (intro psubset_card_mono) auto
    from less.hyps [OF this inv'] obtain t where "bfs_loop g ?s' = Some (Inr t)" ..
    with Cons show ?thesis
      by (subst bfs_loop.simps) (simp add: queue_empty_def queue_get_def)
  qed
qed

lemma breadth_first_search_terminates:
  "finite {l. reachable g start l} \<Longrightarrow> \<exists>t. breadth_first_search g start = Some (Inr t)"
  unfolding breadth_first_search_def by (rule bfs_loop_terminates [OF _ bfs_inv_init])

lemma bfs_step_puts:
  "printed (fst (bfs_step g c)) @ bfs_frontier (fst (bfs_step g c))
   = printed (fst c) @ bfs_frontier (fst c) @
     (case c of
        (s, Inner current (next # rest)) \<Rightarrow> if reached s next = None then [next] else []
      | _ \<Rightarrow> [])"
proof (cases c)
  case (Pair s p)
  show ?thesis
  proof (cases p)
    case Head
    with Pair show ?thesis
      by (cases "bfs_frontier s") (simp_all add: queue_empty_def queue_get_def bfs_dequeue_def)
  next
    case (Inner current ns)
    with Pair show ?thesis
      by (cases ns) (simp_all add: bfs_visit_def queue_put_def)
  qed (simp_all add: Pair)
qed

lemma bfs_puts_run:
  "bfs_puts g start n
   = printed (fst (bfs_run g start n)) @ bfs_frontier (fst (bfs_run g start n))"
proof (induction n)
  case 0
  show ?case by (simp add: bfs_run_def bfs_init_def queue_put_def)
next
  case (Suc n)
  have "bfs_run g start (Suc n) = bfs_step g (bfs_run g start n)" by (simp add: bfs_run_def)
  then show ?case by (simp add: Suc bfs_step_puts)
qed

text \<open>
  C7: at every point of a run of \<open>breadth_first_search\<close>, the sequence of the locations
  put on the frontier so far has no duplicate: each location is enqueued at most once.
\<close>

theorem bfs_enqueued_once: "distinct (bfs_puts g start n)"
proof -
  obtain s p where c: "bfs_run g start n = (s, p)" by (cases "bfs_run g start n")
  with bfs_inv_run [of g start n] have "distinct (printed s @ bfs_frontier s)"
    by (simp add: bfs_inv_def)
  with c show ?thesis by (simp add: bfs_puts_run)
qed


lemma bfs_example_A:
  "\<exists>s. breadth_first_search example_graph ''A'' = Some (Inr s)
      \<and> printed s = [''A'', ''B'', ''C'', ''D'', ''F'', ''E'']
      \<and> dom (reached s) = {''A'', ''B'', ''C'', ''D'', ''E'', ''F''}"
  apply (simp add: breadth_first_search_def bfs_init_def queue_put_def)
  apply (subst bfs_loop.simps, simp add: queue_empty_def queue_get_def queue_put_def bfs_dequeue_def bfs_visit_def example_graph_def)+
  apply auto
  done


section \<open>Properties of Dijkstra's search\<close>

lemma pq_get_nonempty:
  "elements \<noteq> [] \<Longrightarrow>
   pq_get elements = Inr (snd (Min (set elements)), remove1 (Min (set elements)) elements)"
  by (simp add: pq_get_def Let_def)

lemma Min_in_list: "elements \<noteq> [] \<Longrightarrow> Min (set elements) \<in> set elements"
  by (rule Min_in) simp_all

lemma relax_result:
  assumes "cost_so_far s current = Some c"
  shows "relax g current s next =
    Inr (if (case cost_so_far s next of None \<Rightarrow> True | Some old \<Rightarrow> c + cost g current next < old)
         then s\<lparr>cost_so_far := (cost_so_far s)(next \<mapsto> c + cost g current next),
                frontier := (c + cost g current next, next) # frontier s,
                came_from := (came_from s)(next \<mapsto> Some current)\<rparr>
         else s)"
  using assms by (simp add: relax_def Let_def pq_put_def)

lemma keys_inv_init: "keys_inv (dijkstra_init start, Head)"
  by (simp add: keys_inv_def dijkstra_init_def pq_put_def)

lemma keys_inv_step:
  assumes "keys_inv c"
  shows "keys_inv (dijkstra_step g goal c)"
proof (cases c)
  case (Pair s p)
  show ?thesis
  proof (cases p)
    case Head
    show ?thesis
    proof (cases "frontier s = []")
      case True
      with assms Pair Head show ?thesis by (simp add: keys_inv_def pq_empty_def)
    next
      case False
      from Min_in_list [OF False] assms Pair have "snd (Min (set (frontier s))) \<in> dom (cost_so_far s)"
        by (simp add: keys_inv_def)
      moreover have "set (remove1 (Min (set (frontier s))) (frontier s)) \<subseteq> set (frontier s)"
        by (rule set_remove1_subset)
      ultimately show ?thesis using assms Pair Head False
        by (auto simp add: keys_inv_def pq_empty_def pq_get_nonempty)
    qed
  next
    case (Inner current ns)
    show ?thesis
    proof (cases ns)
      case Nil
      with assms Pair Inner show ?thesis by (simp add: keys_inv_def)
    next
      case (Cons n rest)
      from assms Pair Inner obtain c where c: "cost_so_far s current = Some c"
        by (auto simp add: keys_inv_def)
      from assms Pair Inner Cons show ?thesis
        by (auto simp add: keys_inv_def relax_result [OF c])
    qed
  next
    case Done
    with assms Pair show ?thesis by simp
  next
    case (Failed e)
    with assms Pair show ?thesis by (simp add: keys_inv_def)
  qed
qed

lemma keys_inv_run: "keys_inv (dijkstra_run g start goal n)"
  by (induction n) (simp_all add: dijkstra_run_def keys_inv_init keys_inv_step)

lemma dijkstra_steps_inner:
  "relax_all g current s ns = Inr s'
   \<Longrightarrow> (dijkstra_step g goal ^^ Suc (length ns)) (s, Inner current ns) = (s', Head)"
proof (induction ns arbitrary: s)
  case Nil
  then show ?case by simp
next
  case (Cons n ns)
  from Cons.prems obtain t where t: "relax g current s n = Inr t" "relax_all g current t ns = Inr s'"
    by (auto split: sum.splits)
  from Cons.IH [OF t(2)] t(1) show ?case by (simp add: funpow_swap1)
qed

lemma dijkstra_steps_inner_failed:
  "relax_all g current s ns = Inl e
   \<Longrightarrow> \<exists>k t. (dijkstra_step g goal ^^ k) (s, Inner current ns) = (t, Failed e)"
proof (induction ns arbitrary: s)
  case Nil
  then show ?case by simp
next
  case (Cons n ns)
  show ?case
  proof (cases "relax g current s n")
    case (Inl e')
    with Cons.prems have "(dijkstra_step g goal ^^ 1) (s, Inner current (n # ns)) = (s, Failed e)"
      by simp
    then show ?thesis by blast
  next
    case (Inr t)
    with Cons.prems have "relax_all g current t ns = Inl e" by simp
    from Cons.IH [OF this] obtain k u
      where "(dijkstra_step g goal ^^ k) (t, Inner current ns) = (u, Failed e)" by blast
    with Inr have "(dijkstra_step g goal ^^ Suc k) (s, Inner current (n # ns)) = (u, Failed e)"
      by (simp add: funpow_swap1)
    then show ?thesis by blast
  qed
qed

lemma dijkstra_loop_run:
  assumes "dijkstra_loop g goal s = Some r"
  shows "case r of Inl e \<Rightarrow> \<exists>n t. (dijkstra_step g goal ^^ n) (s, Head) = (t, Failed e)
                 | Inr u \<Rightarrow> \<exists>n. (dijkstra_step g goal ^^ n) (s, Head) = (u, Done)"
proof (rule dijkstra_loop.raw_induct [where P = "\<lambda>g goal s r.
    case r of Inl e \<Rightarrow> \<exists>n t. (dijkstra_step g goal ^^ n) (s, Head) = (t, Failed e)
            | Inr u \<Rightarrow> \<exists>n. (dijkstra_step g goal ^^ n) (s, Head) = (u, Done)", OF _ assms])
  fix loop :: "('a, 'b) weighted_graph_scheme \<Rightarrow> 'a \<Rightarrow> 'a dijkstra_state
      \<Rightarrow> (error + 'a dijkstra_state) option"
    and g goal s r
  assume IH: "\<And>g goal s r. loop g goal s = Some r \<Longrightarrow>
      (case r of Inl e \<Rightarrow> \<exists>n t. (dijkstra_step g goal ^^ n) (s, Head) = (t, Failed e)
               | Inr u \<Rightarrow> \<exists>n. (dijkstra_step g goal ^^ n) (s, Head) = (u, Done))"
    and body: "(if pq_empty (frontier s) then Some (Inr s)
      else (case pq_get (frontier s) of
              Inl e \<Rightarrow> Some (Inl e)
            | Inr (current, rest) \<Rightarrow>
                if current = goal then Some (Inr (s\<lparr>frontier := rest\<rparr>))
                else (case relax_all g current (s\<lparr>frontier := rest\<rparr>) (neighbors g current) of
                        Inl e \<Rightarrow> Some (Inl e)
                      | Inr s' \<Rightarrow> loop g goal s'))) = Some r"
  let ?P = "case r of Inl e \<Rightarrow> \<exists>n t. (dijkstra_step g goal ^^ n) (s, Head) = (t, Failed e)
                    | Inr u \<Rightarrow> \<exists>n. (dijkstra_step g goal ^^ n) (s, Head) = (u, Done)"
  show ?P
  proof (cases "frontier s = []")
    case True
    with body have "r = Inr s" by (simp add: pq_empty_def)
    moreover from True have "(dijkstra_step g goal ^^ 1) (s, Head) = (s, Done)"
      by (simp add: pq_empty_def)
    ultimately show ?thesis by (simp only: sum.case) blast
  next
    case False
    define current where "current = snd (Min (set (frontier s)))"
    define rest where "rest = remove1 (Min (set (frontier s))) (frontier s)"
    have get: "pq_get (frontier s) = Inr (current, rest)"
      using False by (simp add: pq_get_nonempty current_def rest_def)
    show ?thesis
    proof (cases "current = goal")
      case True
      with body False get have "r = Inr (s\<lparr>frontier := rest\<rparr>)" by (simp add: pq_empty_def)
      moreover from True False get
      have "(dijkstra_step g goal ^^ 1) (s, Head) = (s\<lparr>frontier := rest\<rparr>, Done)"
        by (simp add: pq_empty_def)
      ultimately show ?thesis by (simp only: sum.case) blast
    next
      case neq: False
      from neq False get
      have pop: "dijkstra_step g goal (s, Head)
          = (s\<lparr>frontier := rest\<rparr>, Inner current (neighbors g current))"
        by (simp add: pq_empty_def)
      show ?thesis
      proof (cases "relax_all g current (s\<lparr>frontier := rest\<rparr>) (neighbors g current)")
        case (Inl e)
        with body False get neq have r: "r = Inl e" by (simp add: pq_empty_def)
        from dijkstra_steps_inner_failed [OF Inl, of goal] obtain k t where
          "(dijkstra_step g goal ^^ k) (s\<lparr>frontier := rest\<rparr>, Inner current (neighbors g current))
            = (t, Failed e)" by blast
        with pop have "(dijkstra_step g goal ^^ Suc k) (s, Head) = (t, Failed e)"
          by (simp only: funpow_Suc_right o_apply)
        with r show ?thesis by (simp only: sum.case) blast
      next
        case (Inr s')
        with body False get neq have "loop g goal s' = Some r" by (simp add: pq_empty_def)
        note ih = IH [OF this]
        from dijkstra_steps_inner [OF Inr, of goal] pop
        have iter: "(dijkstra_step g goal ^^ Suc (Suc (length (neighbors g current)))) (s, Head)
            = (s', Head)"
          by (simp only: funpow_Suc_right o_apply)
        show ?thesis
        proof (cases r)
          case (Inl e)
          with ih obtain n t where "(dijkstra_step g goal ^^ n) (s', Head) = (t, Failed e)" by auto
          with iter have "(dijkstra_step g goal ^^ (n + Suc (Suc (length (neighbors g current)))))
              (s, Head) = (t, Failed e)"
            by (simp only: funpow_add o_apply)
          with Inl show ?thesis by (simp only: sum.case) blast
        next
          case (Inr u)
          with ih obtain n where "(dijkstra_step g goal ^^ n) (s', Head) = (u, Done)" by auto
          with iter have "(dijkstra_step g goal ^^ (n + Suc (Suc (length (neighbors g current)))))
              (s, Head) = (u, Done)"
            by (simp only: funpow_add o_apply)
          with Inr show ?thesis by (simp only: sum.case) blast
        qed
      qed
    qed
  qed
qed

lemma dijkstra_search_run:
  assumes "dijkstra_search g start goal = Some r"
  shows "\<exists>n s. dijkstra_run g start goal n = (s, Done) \<and> r = Inr (came_from s, cost_so_far s)"
proof -
  from assms obtain r' where r': "dijkstra_loop g goal (dijkstra_init start) = Some r'"
    by (auto simp add: dijkstra_search_def split: option.splits)
  show ?thesis
  proof (cases r')
    case (Inl e)
    with dijkstra_loop_run [OF r'] obtain n t where "dijkstra_run g start goal n = (t, Failed e)"
      by (auto simp add: dijkstra_run_def)
    with keys_inv_run [of g start goal n] show ?thesis by (simp add: keys_inv_def)
  next
    case (Inr s)
    with dijkstra_loop_run [OF r'] obtain n where "dijkstra_run g start goal n = (s, Done)"
      by (auto simp add: dijkstra_run_def)
    moreover from assms r' Inr have "r = Inr (came_from s, cost_so_far s)"
      by (simp add: dijkstra_search_def)
    ultimately show ?thesis by blast
  qed
qed

text \<open>
  C10: when \<open>dijkstra_search g start goal\<close> returns, it returns two tables, and a location
  is a key of \<open>came_from\<close> if and only if it is a key of \<open>cost_so_far\<close>.
\<close>

theorem dijkstra_same_keys:
  assumes "dijkstra_search g start goal = Some r"
  shows "\<exists>cf cs. r = Inr (cf, cs) \<and> dom cf = dom cs"
proof -
  from dijkstra_search_run [OF assms] obtain n s
    where "dijkstra_run g start goal n = (s, Done)" "r = Inr (came_from s, cost_so_far s)" by blast
  with keys_inv_run [of g start goal n] show ?thesis by (simp add: keys_inv_def)
qed





lemma small_run_6: "cost_so_far (fst (dijkstra_run small_graph 0 3 6)) 1 = Some 3"
  by (simp add: dijkstra_run_def eval_nat_numeral dijkstra_init_def pq_put_def pq_empty_def
      pq_get_def relax_def small_graph_def)

lemma small_search:
  "dijkstra_search small_graph 0 3 = Some (Inr ([0 \<mapsto> None, 1 \<mapsto> Some 0, 2 \<mapsto> Some 0, 1 \<mapsto> Some 2, 3 \<mapsto> Some 2, 3 \<mapsto> Some 1], [0 \<mapsto> 0, 1 \<mapsto> 4, 2 \<mapsto> 1, 1 \<mapsto> 3, 3 \<mapsto> 6, 3 \<mapsto> 4]))"
  apply (simp add: dijkstra_search_def dijkstra_init_def pq_put_def)
  apply (subst dijkstra_loop.simps, simp add: pq_empty_def pq_get_def pq_put_def relax_def small_graph_def)+
  done


theorem dijkstra_same_keys_witness:
  "\<exists>cf cs. dijkstra_search small_graph 0 3 = Some (Inr (cf, cs)) \<and> dom cf = dom cs"
  using dijkstra_same_keys [OF small_search] small_search by simp

lemma tree_okD:
  assumes "tree_ok g start s"
  shows "cost_so_far s start = Some 0" and "came_from s start = Some None"
    and "\<And>x v. cost_so_far s x = Some v \<Longrightarrow> 0 \<le> v"
    and "\<And>x v. cost_so_far s x = Some v \<Longrightarrow> x \<noteq> start \<Longrightarrow>
         \<exists>q u. came_from s x = Some (Some q) \<and> settled s q u \<and> x \<in> set (neighbors g q)
            \<and> v = u + cost g q x"
    and "\<And>x. came_from s x \<noteq> None \<Longrightarrow> reaches_start (came_from s) start x"
    and "\<And>x v. cost_so_far s x = Some v \<Longrightarrow> reachable g start x"
  using assms unfolding tree_ok_def by blast+

lemma tree_okI:
  assumes "cost_so_far s start = Some 0" and "came_from s start = Some None"
    and "\<And>x v. cost_so_far s x = Some v \<Longrightarrow> 0 \<le> v"
    and "\<And>x v. cost_so_far s x = Some v \<Longrightarrow> x \<noteq> start \<Longrightarrow>
         \<exists>q u. came_from s x = Some (Some q) \<and> settled s q u \<and> x \<in> set (neighbors g q)
            \<and> v = u + cost g q x"
    and "\<And>x. came_from s x \<noteq> None \<Longrightarrow> reaches_start (came_from s) start x"
    and "\<And>x v. cost_so_far s x = Some v \<Longrightarrow> reachable g start x"
  shows "tree_ok g start s"
  unfolding tree_ok_def
proof (intro conjI allI impI)
  show "cost_so_far s start = Some 0" by fact
  show "came_from s start = Some None" by fact
  show "0 \<le> v" if "cost_so_far s x = Some v" for x v using that by (rule assms(3))
  show "\<exists>q u. came_from s x = Some (Some q) \<and> settled s q u \<and> x \<in> set (neighbors g q)
            \<and> v = u + cost g q x" if "cost_so_far s x = Some v" "x \<noteq> start" for x v
    using that by (rule assms(4))
  show "reaches_start (came_from s) start x" if "came_from s x \<noteq> None" for x
    using that by (rule assms(5))
  show "reachable g start x" if "cost_so_far s x = Some v" for x v using that by (rule assms(6))
qed

lemma dijkstra_inv_init: "dijkstra_inv g start goal (dijkstra_init start, Head)"
  by (auto simp add: dijkstra_inv_def dijkstra_init_def pq_put_def queue_ok_def settled_least_def
      relaxed_def tree_ok_def place_ok_def settled_def reachable_def intro: reaches_start.intros)

text \<open>Taking the least tuple out of the frontier.\<close>

lemma pop_settled:
  assumes q: "queue_ok s" and ne: "frontier s \<noteq> []"
    and m: "Min (set (frontier s)) = (pr, current)"
    and s': "s' = s\<lparr>frontier := remove1 (pr, current) (frontier s)\<rparr>"
  shows "\<exists>c. settled s' current c \<and> c \<le> pr \<and> (c = pr \<or> settled s current c)"
    and "settled s' x v \<longleftrightarrow> settled s x v \<or> (x = current \<and> v = pr \<and> cost_so_far s x = Some pr)"
    and "set (frontier s') = set (frontier s) - {(pr, current)}"
    and "\<And>pr' y. (pr', y) \<in> set (frontier s) \<Longrightarrow> pr \<le> pr'"
proof -
  from q have d: "distinct (frontier s)" by (simp add: queue_ok_def)
  from Min_in_list [OF ne] m have mem: "(pr, current) \<in> set (frontier s)" by simp
  show set: "set (frontier s') = set (frontier s) - {(pr, current)}"
    using d by (simp add: s')
  show least: "pr \<le> pr'" if "(pr', y) \<in> set (frontier s)" for pr' y
  proof -
    from that have "Min (set (frontier s)) \<le> (pr', y)" by (intro Min_le) simp_all
    with m show ?thesis by (auto simp add: less_eq_prod_def)
  qed
  from q mem obtain c where c: "cost_so_far s current = Some c" "c \<le> pr"
    by (auto simp add: queue_ok_def)
  show "\<exists>c. settled s' current c \<and> c \<le> pr \<and> (c = pr \<or> settled s current c)"
  proof (cases "c = pr")
    case True
    with c set show ?thesis by (auto simp add: settled_def s')
  next
    case False
    have "(c, current) \<notin> set (frontier s)"
    proof
      assume "(c, current) \<in> set (frontier s)"
      from least [OF this] c(2) False show False by simp
    qed
    with c set show ?thesis by (auto simp add: settled_def s')
  qed
  show "settled s' x v \<longleftrightarrow> settled s x v \<or> (x = current \<and> v = pr \<and> cost_so_far s x = Some pr)"
    using set by (auto simp add: settled_def s')
qed

lemma dijkstra_inv_pop:
  assumes inv: "dijkstra_inv g start goal (s, Head)" and ne: "frontier s \<noteq> []"
    and m: "Min (set (frontier s)) = (pr, current)"
    and s': "s' = s\<lparr>frontier := remove1 (pr, current) (frontier s)\<rparr>"
    and p': "p' = (if current = goal then Done else Inner current (neighbors g current))"
  shows "dijkstra_inv g start goal (s', p')"
proof -
  from inv have keys: "dom (came_from s) = dom (cost_so_far s)" and q: "queue_ok s"
    and sl: "settled_least s" and rel: "relaxed g goal s Head" and tr: "tree_ok g start s"
    by (simp_all add: dijkstra_inv_def)
  note pop = pop_settled [OF q ne m s']
  from Min_in_list [OF ne] m have mem: "(pr, current) \<in> set (frontier s)" by simp
  have cs: "cost_so_far s' = cost_so_far s" and cf: "came_from s' = came_from s"
    by (simp_all add: s')
  have mono: "settled s' x v" if "settled s x v" for x v
    using that pop(2) by blast
  have least: "u \<le> pr" if "settled s' z u" for z u
  proof -
    from that pop(2) have "settled s z u \<or> u = pr" by blast
    with sl mem show ?thesis by (auto simp add: settled_least_def)
  qed
  have "queue_ok s'"
    using q pop(3) by (auto simp add: queue_ok_def cs) (simp add: s')
  moreover have "settled_least s'"
    unfolding settled_least_def
  proof (intro allI impI)
    fix x v pr' y
    assume a: "settled s' x v" "(pr', y) \<in> set (frontier s')"
    from a(2) pop(3) have in_s: "(pr', y) \<in> set (frontier s)" by simp
    from least [OF a(1)] pop(4) [OF in_s] show "v \<le> pr'" by simp
  qed
  moreover have "relaxed g goal s' p'"
    unfolding relaxed_def
  proof (intro allI impI)
    fix x v y
    assume a: "settled s' x v" "y \<in> set (neighbors g x)"
    show "(\<exists>w. cost_so_far s' y = Some w \<and> w \<le> v + cost g x y) \<or>
       (y \<in> dijkstra_pending goal p' x \<and> (\<forall>z u. settled s' z u \<longrightarrow> u \<le> v))"
    proof (cases "settled s x v")
      case True
      with rel a(2) show ?thesis by (auto simp add: relaxed_def dijkstra_pending_def cs)
    next
      case False
      with a(1) pop(2) have xv: "x = current" "v = pr" by blast+
      with a(2) have "y \<in> dijkstra_pending goal p' x" by (simp add: dijkstra_pending_def p')
      with least xv show ?thesis by blast
    qed
  qed
  moreover have "tree_ok g start s'"
  proof (rule tree_okI)
    fix x v
    assume a: "cost_so_far s' x = Some v" "x \<noteq> start"
    from tree_okD(4) [OF tr, of x v] a obtain q u where "came_from s x = Some (Some q)"
      "settled s q u" "x \<in> set (neighbors g q)" "v = u + cost g q x"
      unfolding cs by blast
    with mono show "\<exists>q u. came_from s' x = Some (Some q) \<and> settled s' q u
        \<and> x \<in> set (neighbors g q) \<and> v = u + cost g q x"
      unfolding cf by blast
  qed (use tree_okD [OF tr] in \<open>simp_all add: cs cf\<close>)
  moreover have "place_ok g goal s' p'"
    using pop(1) by (auto simp add: place_ok_def p')
  ultimately show ?thesis using keys by (simp add: dijkstra_inv_def cs cf)
qed

lemma reaches_start_update_other:
  assumes "reaches_start cf start x" and "x \<in> A" and "y \<notin> A"
    and closed: "\<And>z q. z \<in> A \<Longrightarrow> z \<noteq> start \<Longrightarrow> cf z = Some (Some q) \<Longrightarrow> q \<in> A"
  shows "reaches_start (cf(y \<mapsto> w)) start x"
  using assms(1,2)
proof (induction rule: reaches_start.induct)
  case reaches_here
  show ?case by (rule reaches_start.reaches_here)
next
  case (reaches_back x p)
  show ?case
  proof (cases "x = start")
    case True
    then show ?thesis by (simp add: reaches_start.reaches_here)
  next
    case False
    from closed [OF reaches_back.prems False reaches_back.hyps(1)] have "p \<in> A" .
    from reaches_back.IH [OF this] have "reaches_start (cf(y \<mapsto> w)) start p" .
    moreover from reaches_back.prems assms(3) have "x \<noteq> y" by blast
    with reaches_back.hyps(1) have "(cf(y \<mapsto> w)) x = Some (Some p)" by simp
    ultimately show ?thesis by (blast intro: reaches_start.reaches_back)
  qed
qed

lemma reaches_start_update:
  assumes "reaches_start cf start z" and "reaches_start (cf(y \<mapsto> w)) start y"
  shows "reaches_start (cf(y \<mapsto> w)) start z"
  using assms(1)
proof (induction rule: reaches_start.induct)
  case reaches_here
  show ?case by (rule reaches_start.reaches_here)
next
  case (reaches_back x p)
  show ?case
  proof (cases "x = y")
    case True
    show ?thesis unfolding True by (rule assms(2))
  next
    case False
    with reaches_back.hyps(1) have "(cf(y \<mapsto> w)) x = Some (Some p)" by simp
    with reaches_back.IH show ?thesis by (blast intro: reaches_start.reaches_back)
  qed
qed

lemma dijkstra_inv_relax:
  assumes nn: "nonneg_costs g"
    and inv: "dijkstra_inv g start goal (s, Inner current (y # rest))"
  shows "\<exists>s'. relax g current s y = Inr s' \<and> dijkstra_inv g start goal (s', Inner current rest)
            \<and> (\<forall>x v. settled s x v \<longrightarrow> settled s' x v)"
proof -
  from inv have keys: "dom (came_from s) = dom (cost_so_far s)" and q: "queue_ok s"
    and sl: "settled_least s" and rel: "relaxed g goal s (Inner current (y # rest))"
    and tr: "tree_ok g start s" and pl: "place_ok g goal s (Inner current (y # rest))"
    by (simp_all add: dijkstra_inv_def)
  from pl obtain c where c: "settled s current c" and yn: "y \<in> set (neighbors g current)"
    and sub: "set rest \<subseteq> set (neighbors g current)"
    by (auto simp add: place_ok_def)
  from c have dc: "cost_so_far s current = Some c" by (simp add: settled_def)
  from nn yn have cost0: "0 \<le> cost g current y" by (simp add: nonneg_costs_def)
  define nc where "nc = c + cost g current y"
  have pl': "place_ok g goal s (Inner current rest)"
    using c sub by (auto simp add: place_ok_def)
  show ?thesis
  proof (cases "case cost_so_far s y of None \<Rightarrow> True | Some old \<Rightarrow> nc < old")
    case False
    then obtain w where w: "cost_so_far s y = Some w" "w \<le> nc"
      by (auto split: option.splits)
    from w have res: "relax g current s y = Inr s"
      by (simp add: relax_result [OF dc] nc_def)
    have "relaxed g goal s (Inner current rest)"
      unfolding relaxed_def
    proof (intro allI impI)
      fix x v z
      assume a: "settled s x v" "z \<in> set (neighbors g x)"
      with rel have old: "(\<exists>w. cost_so_far s z = Some w \<and> w \<le> v + cost g x z) \<or>
          (z \<in> dijkstra_pending goal (Inner current (y # rest)) x \<and> (\<forall>z u. settled s z u \<longrightarrow> u \<le> v))"
        unfolding relaxed_def by blast
      show "(\<exists>w. cost_so_far s z = Some w \<and> w \<le> v + cost g x z) \<or>
          (z \<in> dijkstra_pending goal (Inner current rest) x \<and> (\<forall>z u. settled s z u \<longrightarrow> u \<le> v))"
      proof (cases "x = current \<and> z = y")
        case True
        with a(1) c have "v = c" by (simp add: settled_def)
        with True w show ?thesis by (simp add: nc_def)
      next
        case False
        with old show ?thesis by (auto simp add: dijkstra_pending_def split: if_splits)
      qed
    qed
    with keys q sl tr pl' have "dijkstra_inv g start goal (s, Inner current rest)"
      by (simp add: dijkstra_inv_def)
    with res show ?thesis by blast
  next
    case True
    define s' where "s' = s\<lparr>cost_so_far := (cost_so_far s)(y \<mapsto> nc),
        frontier := (nc, y) # frontier s, came_from := (came_from s)(y \<mapsto> Some current)\<rparr>"
    from True have res: "relax g current s y = Inr s'"
      by (cases "cost_so_far s y") (simp_all add: relax_result [OF dc] nc_def s'_def)
    have cs': "cost_so_far s' = (cost_so_far s)(y \<mapsto> nc)"
      and fr': "frontier s' = (nc, y) # frontier s"
      and cf': "came_from s' = (came_from s)(y \<mapsto> Some current)"
      by (simp_all add: s'_def)
    have upd: "nc < w" if "cost_so_far s y = Some w" for w
      using True that by simp
    from rel c yn have "(\<exists>w. cost_so_far s y = Some w \<and> w \<le> c + cost g current y) \<or>
        (\<forall>z u. settled s z u \<longrightarrow> u \<le> c)"
      unfolding relaxed_def by blast
    with upd have K: "u \<le> c" if "settled s z u" for z u
      using that by (auto simp add: nc_def)
    have c_nc: "c \<le> nc" using cost0 by (simp add: nc_def)
    have ny: "\<not> settled s y w" for w
    proof
      assume a: "settled s y w"
      from K [OF a] c_nc upd [of w] a show False by (simp add: settled_def)
    qed
    from tree_okD(3) [OF tr dc] have c0: "0 \<le> c" .
    have y_start: "y \<noteq> start"
    proof
      assume "y = start"
      with tree_okD(1) [OF tr] have "cost_so_far s y = Some 0" by simp
      from upd [OF this] c0 c_nc show False by simp
    qed
    from c ny have y_cur: "y \<noteq> current" by blast
    have st: "settled s' x v \<longleftrightarrow> settled s x v" for x v
    proof (cases "x = y")
      case True
      with ny show ?thesis by (auto simp add: settled_def cs' fr')
    next
      case False
      then show ?thesis by (auto simp add: settled_def cs' fr')
    qed
    have "dom (came_from s') = dom (cost_so_far s')"
      using keys by (simp add: cs' cf')
    moreover have "queue_ok s'"
    proof -
      have "(nc, y) \<notin> set (frontier s)"
      proof
        assume "(nc, y) \<in> set (frontier s)"
        with q obtain w where "cost_so_far s y = Some w" "w \<le> nc"
          by (auto simp add: queue_ok_def)
        with upd [of w] show False by simp
      qed
      moreover have "\<exists>v. cost_so_far s' x = Some v \<and> v \<le> pr" if "(pr, x) \<in> set (frontier s)" for pr x
      proof -
        from q that obtain v where v: "cost_so_far s x = Some v" "v \<le> pr"
          by (auto simp add: queue_ok_def)
        show ?thesis
        proof (cases "x = y")
          case True
          with v upd [of v] show ?thesis by (simp add: cs')
        next
          case False
          with v show ?thesis by (simp add: cs')
        qed
      qed
      ultimately show ?thesis using q by (auto simp add: queue_ok_def fr' cs')
    qed
    moreover have "settled_least s'"
      unfolding settled_least_def
    proof (intro allI impI)
      fix x v pr z
      assume a: "settled s' x v" "(pr, z) \<in> set (frontier s')"
      from a(1) st have sx: "settled s x v" by simp
      from a(2) have "(pr, z) = (nc, y) \<or> (pr, z) \<in> set (frontier s)" by (simp add: fr')
      then show "v \<le> pr"
      proof
        assume "(pr, z) = (nc, y)"
        with K [OF sx] c_nc show ?thesis by simp
      next
        assume "(pr, z) \<in> set (frontier s)"
        with sl sx show ?thesis by (auto simp add: settled_least_def)
      qed
    qed
    moreover have "relaxed g goal s' (Inner current rest)"
      unfolding relaxed_def
    proof (intro allI impI)
      fix x v z
      assume a: "settled s' x v" "z \<in> set (neighbors g x)"
      from a(1) st have sx: "settled s x v" by simp
      with rel a(2) have old: "(\<exists>w. cost_so_far s z = Some w \<and> w \<le> v + cost g x z) \<or>
          (z \<in> dijkstra_pending goal (Inner current (y # rest)) x \<and> (\<forall>z u. settled s z u \<longrightarrow> u \<le> v))"
        unfolding relaxed_def by blast
      show "(\<exists>w. cost_so_far s' z = Some w \<and> w \<le> v + cost g x z) \<or>
          (z \<in> dijkstra_pending goal (Inner current rest) x \<and> (\<forall>z u. settled s' z u \<longrightarrow> u \<le> v))"
      proof (cases "z = y")
        case zy: True
        show ?thesis
        proof (cases "x = current")
          case True
          with sx c have "v = c" by (simp add: settled_def)
          with True zy show ?thesis by (simp add: cs' nc_def)
        next
          case False
          with old have "\<exists>w. cost_so_far s z = Some w \<and> w \<le> v + cost g x z"
            by (auto simp add: dijkstra_pending_def)
          then obtain w where w: "cost_so_far s y = Some w" "w \<le> v + cost g x y"
            using zy by auto
          from upd [OF w(1)] w(2) zy show ?thesis by (simp add: cs')
        qed
      next
        case False
        with old show ?thesis
          by (auto simp add: dijkstra_pending_def cs' st split: if_splits)
      qed
    qed
    moreover have "tree_ok g start s'"
    proof -
      have t1: "cost_so_far s' start = Some 0" and t2: "came_from s' start = Some None"
        using tree_okD(1,2) [OF tr] y_start by (simp_all add: cs' cf')
      have t3: "0 \<le> v" if "cost_so_far s' x = Some v" for x v
      proof (cases "x = y")
        case True
        with that c0 c_nc show ?thesis by (simp add: cs')
      next
        case False
        with that tree_okD(3) [OF tr, of x v] show ?thesis by (simp add: cs')
      qed
      have t4: "\<exists>q u. came_from s' x = Some (Some q) \<and> settled s' q u
          \<and> x \<in> set (neighbors g q) \<and> v = u + cost g q x"
        if "cost_so_far s' x = Some v" "x \<noteq> start" for x v
      proof (cases "x = y")
        case True
        with that(1) have "v = nc" by (simp add: cs')
        with True c yn show ?thesis by (auto simp add: cf' st nc_def)
      next
        case False
        with that have "cost_so_far s x = Some v" by (simp add: cs')
        from tree_okD(4) [OF tr this that(2)] obtain q u where "came_from s x = Some (Some q)"
          "settled s q u" "x \<in> set (neighbors g q)" "v = u + cost g q x"
          by blast
        with False show ?thesis by (auto simp add: cf' st)
      qed
      have t5: "reaches_start (came_from s') start x" if "came_from s' x \<noteq> None" for x
      proof -
        have old: "reaches_start (came_from s) start z" if "came_from s z \<noteq> None" for z
          using that by (rule tree_okD(5) [OF tr])
        have closed: "q \<in> {x. \<exists>v. settled s x v}"
          if "z \<in> {x. \<exists>v. settled s x v}" "z \<noteq> start" "came_from s z = Some (Some q)" for z q
        proof -
          from that(1) obtain v where "cost_so_far s z = Some v" by (auto simp add: settled_def)
          from tree_okD(4) [OF tr this that(2)] obtain q' u
            where "came_from s z = Some (Some q')" "settled s q' u" by blast
          with that(3) show ?thesis by auto
        qed
        from dc keys have "came_from s current \<noteq> None" by (auto simp add: dom_def)
        from old [OF this] have "reaches_start (came_from s) start current" .
        from c ny have "current \<in> {x. \<exists>v. settled s x v}" "y \<notin> {x. \<exists>v. settled s x v}"
          by blast+
        from reaches_start_update_other [OF \<open>reaches_start (came_from s) start current\<close> this closed]
        have "reaches_start (came_from s') start current" by (simp add: cf')
        then have ry: "reaches_start (came_from s') start y"
          by (rule reaches_start.reaches_back [rotated]) (simp add: cf')
        show ?thesis
        proof (cases "x = y")
          case True
          with ry show ?thesis by simp
        next
          case False
          with that have "came_from s x \<noteq> None" by (simp add: cf')
          from reaches_start_update [OF old [OF this]] ry show ?thesis by (simp add: cf')
        qed
      qed
      have t6: "reachable g start x" if "cost_so_far s' x = Some v" for x v
      proof (cases "x = y")
        case True
        from tree_okD(6) [OF tr dc] have "reachable g start current" .
        from reachable_edge [OF this yn] True show ?thesis by simp
      next
        case False
        with that have "cost_so_far s x = Some v" by (simp add: cs')
        then show ?thesis by (rule tree_okD(6) [OF tr])
      qed
      from t1 t2 t3 t4 t5 t6 show ?thesis by (rule tree_okI)
    qed
    moreover have "place_ok g goal s' (Inner current rest)"
      using c sub st by (auto simp add: place_ok_def)
    ultimately have "dijkstra_inv g start goal (s', Inner current rest)"
      by (simp add: dijkstra_inv_def)
    with res st show ?thesis by blast
  qed
qed

lemma relaxed_weaken:
  assumes "relaxed g goal s p"
    and "\<And>x. dijkstra_pending goal p x \<subseteq> dijkstra_pending goal p' x"
  shows "relaxed g goal s p'"
  unfolding relaxed_def
proof (intro allI impI)
  fix x v y
  assume a: "settled s x v" "y \<in> set (neighbors g x)"
  with assms(1) have "(\<exists>w. cost_so_far s y = Some w \<and> w \<le> v + cost g x y) \<or>
      (y \<in> dijkstra_pending goal p x \<and> (\<forall>z u. settled s z u \<longrightarrow> u \<le> v))"
    unfolding relaxed_def by blast
  with assms(2) [of x]
  show "(\<exists>w. cost_so_far s y = Some w \<and> w \<le> v + cost g x y) \<or>
      (y \<in> dijkstra_pending goal p' x \<and> (\<forall>z u. settled s z u \<longrightarrow> u \<le> v))"
    by blast
qed

lemma dijkstra_inv_step:
  assumes nn: "nonneg_costs g" and inv: "dijkstra_inv g start goal c"
  shows "dijkstra_inv g start goal (dijkstra_step g goal c)
    \<and> (\<forall>x v. settled (fst c) x v \<longrightarrow> settled (fst (dijkstra_step g goal c)) x v)"
proof (cases c)
  case (Pair s p)
  show ?thesis
  proof (cases p)
    case Head
    show ?thesis
    proof (cases "frontier s = []")
      case True
      from inv Pair Head have "relaxed g goal s Head" by (simp add: dijkstra_inv_def)
      then have "relaxed g goal s Done"
        by (rule relaxed_weaken) (simp add: dijkstra_pending_def)
      with inv Pair Head True show ?thesis
        by (simp add: dijkstra_inv_def pq_empty_def place_ok_def)
    next
      case False
      obtain pr current where m: "Min (set (frontier s)) = (pr, current)"
        by (cases "Min (set (frontier s))")
      define s' where "s' = s\<lparr>frontier := remove1 (pr, current) (frontier s)\<rparr>"
      define p' where "p' = (if current = goal then Done else Inner current (neighbors g current))"
      from False m have step: "dijkstra_step g goal (s, Head) = (s', p')"
        by (simp add: pq_empty_def pq_get_nonempty s'_def p'_def)
      from inv Pair Head have inv': "dijkstra_inv g start goal (s, Head)" by simp
      then have q: "queue_ok s" by (simp add: dijkstra_inv_def)
      from dijkstra_inv_pop [OF inv' False m s'_def p'_def] pop_settled(2) [OF q False m s'_def]
      show ?thesis unfolding Pair Head step by simp
    qed
  next
    case (Inner current ns)
    show ?thesis
    proof (cases ns)
      case Nil
      from inv Pair Inner Nil have "relaxed g goal s (Inner current [])"
        by (simp add: dijkstra_inv_def)
      then have "relaxed g goal s Head"
        by (rule relaxed_weaken) (simp add: dijkstra_pending_def)
      with inv Pair Inner Nil show ?thesis
        by (simp add: dijkstra_inv_def place_ok_def)
    next
      case (Cons y rest)
      from inv Pair Inner Cons have "dijkstra_inv g start goal (s, Inner current (y # rest))"
        by simp
      from dijkstra_inv_relax [OF nn this] show ?thesis
        unfolding Pair Inner Cons by auto
    qed
  next
    case Done
    with inv Pair show ?thesis by simp
  next
    case (Failed e)
    with inv Pair show ?thesis by simp
  qed
qed

lemma dijkstra_inv_steps:
  assumes "nonneg_costs g" and "dijkstra_inv g start goal c"
  shows "dijkstra_inv g start goal ((dijkstra_step g goal ^^ k) c)
    \<and> (\<forall>x v. settled (fst c) x v \<longrightarrow> settled (fst ((dijkstra_step g goal ^^ k) c)) x v)"
proof (induction k)
  case 0
  from assms(2) show ?case by simp
next
  case (Suc k)
  from dijkstra_inv_step [OF assms(1) conjunct1 [OF Suc]] Suc show ?case by simp
qed

lemma dijkstra_inv_run:
  "nonneg_costs g \<Longrightarrow> dijkstra_inv g start goal (dijkstra_run g start goal n)"
  unfolding dijkstra_run_def using dijkstra_inv_steps [OF _ dijkstra_inv_init] by blast


lemma backpointers_acyclic:
  assumes root: "cf start = Some None"
    and reach: "\<And>x. cf x \<noteq> None \<Longrightarrow> reaches_start cf start x"
  shows "\<not> (backpointer cf)\<^sup>+\<^sup>+ x x"
proof
  assume cyc: "(backpointer cf)\<^sup>+\<^sup>+ x x"
  then obtain z where "backpointer cf x z" by (auto dest: tranclpD)
  then have "cf x \<noteq> None" by (simp add: backpointer_def)
  from reach [OF this] cyc show False
  proof (induction rule: reaches_start.induct)
    case reaches_here
    then obtain z where "backpointer cf start z" by (auto dest: tranclpD)
    with root show ?case by (simp add: backpointer_def)
  next
    case (reaches_back x p)
    from reaches_back.prems obtain z where z: "backpointer cf x z" "(backpointer cf)\<^sup>*\<^sup>* z x"
      by (auto dest: tranclpD)
    from z(1) reaches_back.hyps(1) have "z = p" by (simp add: backpointer_def)
    with z have "(backpointer cf)\<^sup>*\<^sup>* p x" "backpointer cf x p" by simp_all
    then have "(backpointer cf)\<^sup>+\<^sup>+ p p" by (rule rtranclp_into_tranclp1)
    with reaches_back.IH show ?case by simp
  qed
qed

text \<open>
  C4: on a graph with non-negative edge costs, at every point of a run of
  \<open>dijkstra_search\<close> the table \<open>came_from\<close> maps \<open>start\<close> to \<^verbatim>\<open>None\<close>, following the
  backpointers from any key reaches \<open>start\<close> in finitely many steps, and no location
  comes back to itself along backpointers: the table is a tree rooted at \<open>start\<close>.
\<close>

theorem dijkstra_came_from_tree:
  assumes "nonneg_costs g"
  shows "came_from (fst (dijkstra_run g start goal n)) start = Some None
    \<and> (\<forall>x \<in> dom (came_from (fst (dijkstra_run g start goal n))).
          reaches_start (came_from (fst (dijkstra_run g start goal n))) start x)
    \<and> (\<forall>x. \<not> (backpointer (came_from (fst (dijkstra_run g start goal n))))\<^sup>+\<^sup>+ x x)"
proof -
  obtain s p where c: "dijkstra_run g start goal n = (s, p)" by (cases "dijkstra_run g start goal n")
  with dijkstra_inv_run [OF assms, of start goal n] have tr: "tree_ok g start s"
    by (simp add: dijkstra_inv_def)
  note t = tree_okD [OF tr]
  from t(2) t(5) backpointers_acyclic [of "came_from s" start, OF t(2) t(5)] show ?thesis
    unfolding c by (auto simp add: dom_def)
qed

lemma small_graph_nonneg: "nonneg_costs small_graph"
  by (simp add: nonneg_costs_def small_graph_def)

theorem dijkstra_came_from_tree_witness:
  "came_from (fst (dijkstra_run small_graph 0 3 7)) 0 = Some None
   \<and> reaches_start (came_from (fst (dijkstra_run small_graph 0 3 7))) 0 1
   \<and> \<not> (backpointer (came_from (fst (dijkstra_run small_graph 0 3 7))))\<^sup>+\<^sup>+ 1 1"
proof -
  have "came_from (fst (dijkstra_run small_graph 0 3 7)) 1 = Some (Some 2)"
    by (simp add: dijkstra_run_def eval_nat_numeral dijkstra_init_def pq_put_def pq_empty_def
        pq_get_def relax_def small_graph_def)
  then have "1 \<in> dom (came_from (fst (dijkstra_run small_graph 0 3 7)))" by blast
  with dijkstra_came_from_tree [OF small_graph_nonneg, of 0 3 7] show ?thesis by blast
qed

















lemma dijkstra_loop_diverges:
  fixes g :: "('l::linorder, 'm) weighted_graph_scheme"
  assumes step: "\<And>s. s \<in> I \<Longrightarrow> \<exists>current rest s'. frontier s \<noteq> []
      \<and> pq_get (frontier s) = Inr (current, rest) \<and> current \<noteq> goal
      \<and> relax_all g current (s\<lparr>frontier := rest\<rparr>) (neighbors g current) = Inr s' \<and> s' \<in> I"
    and "s \<in> I"
  shows "dijkstra_loop g goal s = None"
proof -
  have nr: "\<not> (g' = g \<and> goal' = goal \<and> s \<in> I)"
    if "dijkstra_loop g' goal' s = Some r" for g' goal' s r
  proof (rule dijkstra_loop.raw_induct [where P = "\<lambda>g' goal' s r. \<not> (g' = g \<and> goal' = goal \<and> s \<in> I)", OF _ that])
    fix loop :: "('l, 'm) weighted_graph_scheme \<Rightarrow> 'l \<Rightarrow> 'l dijkstra_state
        \<Rightarrow> (error + 'l dijkstra_state) option"
      and g' goal' s r
    assume IH: "\<And>g' goal' s r. loop g' goal' s = Some r \<Longrightarrow> \<not> (g' = g \<and> goal' = goal \<and> s \<in> I)"
      and body: "(if pq_empty (frontier s) then Some (Inr s)
        else (case pq_get (frontier s) of
                Inl e \<Rightarrow> Some (Inl e)
              | Inr (current, rest) \<Rightarrow>
                  if current = goal' then Some (Inr (s\<lparr>frontier := rest\<rparr>))
                  else (case relax_all g' current (s\<lparr>frontier := rest\<rparr>) (neighbors g' current) of
                          Inl e \<Rightarrow> Some (Inl e)
                        | Inr s' \<Rightarrow> loop g' goal' s'))) = Some r"
    show "\<not> (g' = g \<and> goal' = goal \<and> s \<in> I)"
    proof
      assume a: "g' = g \<and> goal' = goal \<and> s \<in> I"
      with step [of s] obtain current rest s' where st: "frontier s \<noteq> []"
        "pq_get (frontier s) = Inr (current, rest)" "current \<noteq> goal"
        "relax_all g current (s\<lparr>frontier := rest\<rparr>) (neighbors g current) = Inr s'" "s' \<in> I"
        by blast
      with body a have "loop g goal s' = Some r" by (simp add: pq_empty_def)
      from IH [OF this] st(5) show False by simp
    qed
  qed
  show ?thesis
  proof (cases "dijkstra_loop g goal s")
    case (Some r)
    from nr [OF Some] assms(2) show ?thesis by simp
  qed simp
qed



lemma negative_loop_reachable: "reachable negative_loop 0 x \<Longrightarrow> x = 0"
  unfolding reachable_def
  by (induction rule: rtranclp_induct) (simp_all add: edge_def negative_loop_def)

lemma negative_loop_diverges: "dijkstra_search negative_loop 0 1 = None"
proof -
  define I :: "nat dijkstra_state set" where
    "I = {s. \<exists>v. frontier s = [(v, 0)] \<and> cost_so_far s 0 = Some v}"
  have "dijkstra_loop negative_loop 1 (dijkstra_init 0) = None"
  proof (rule dijkstra_loop_diverges [where I = I])
    show "dijkstra_init 0 \<in> I"
      unfolding I_def by (simp add: dijkstra_init_def pq_put_def)
  next
    fix s assume "s \<in> I"
    then obtain v where v: "frontier s = [(v, 0)]" "cost_so_far s 0 = Some v"
      by (auto simp add: I_def)
    define s' where "s' = s\<lparr>cost_so_far := (cost_so_far s)(0 \<mapsto> v - 1),
        frontier := [(v - 1, 0)], came_from := (came_from s)(0 \<mapsto> Some 0)\<rparr>"
    from v have "frontier s \<noteq> []" "pq_get (frontier s) = Inr (0, [])" "(0::nat) \<noteq> 1"
      by (simp_all add: pq_get_def)
    moreover from v have "relax_all negative_loop 0 (s\<lparr>frontier := []\<rparr>)
        (neighbors negative_loop 0) = Inr s'"
      by (simp add: negative_loop_def relax_def pq_put_def s'_def Let_def)
    moreover have "s' \<in> I"
      unfolding I_def by (simp add: s'_def)
    ultimately show "\<exists>current rest s'. frontier s \<noteq> []
      \<and> pq_get (frontier s) = Inr (current, rest) \<and> current \<noteq> 1
      \<and> relax_all negative_loop current (s\<lparr>frontier := rest\<rparr>) (neighbors negative_loop current) = Inr s'
      \<and> s' \<in> I"
      by blast
  qed
  then show ?thesis by (simp add: dijkstra_search_def)
qed


text \<open>
  Nor does it return on \<open>negative_loop\<close>, where only the location 0 can be reached: each
  turn of the loop finds a cheaper way from 0 to 0 and puts 0 on the frontier again.
\<close>

lemma negative_loop_counterexample:
  "finite {l. reachable negative_loop 0 l} \<and> \<not> reachable negative_loop 0 1
   \<and> dijkstra_search negative_loop 0 1 = None"
proof -
  have "{l. reachable negative_loop 0 l} \<subseteq> {0}" using negative_loop_reachable by blast
  then have "finite {l. reachable negative_loop 0 l}" by (rule finite_subset) simp
  with negative_loop_reachable [of 1] negative_loop_diverges show ?thesis by auto
qed











end
